theory Spec2Isabelle
  imports Main
begin

section \<open>Data model of \<open>src/main.py\<close>\<close>

text \<open>
  A Python \<open>datetime\<close>: the date and time fields, and the time zone as the UTC offset
  that its \<open>tzinfo\<close> gives this datetime, in microseconds east of UTC (\<open>None\<close> for a naive
  datetime, such as \<open>datetime(2023, 10, 1)\<close> of the source). The offset is all that
  \<open>isoformat\<close> writes of a time zone, and two datetimes of equal fields and equal offset
  compare equal. The \<open>fold\<close> flag, which \<open>isoformat\<close> does not write, is left out.
\<close>

record datetime =
  year :: nat
  month :: nat
  day :: nat
  hour :: nat
  minute :: nat
  second :: nat
  microsecond :: nat
  utcoffset :: "int option"

text \<open>
  \<open>class Task\<close>. The constructor stores its four arguments unchecked; the annotation
  of \<open>due_date\<close> is \<open>datetime\<close>, but Python does not enforce it, so \<open>None\<close> can be
  stored there.
\<close>

record Task =
  task_id :: string
  name :: string
  completed :: bool
  due_date :: "datetime option"

text \<open>The exceptions the code can raise: its own \<open>SyncError\<close> with a message, and
  Python's \<open>AttributeError\<close> with a message.\<close>

datatype exn = SyncError string | AttributeError string

text \<open>
  \<open>class MockTaskService\<close>: a name and a reference to a mutable list of tasks. The
  list lives in a store under the address \<open>tasks\<close>, so that two services may share
  one list (or be the same object).
\<close>

record TaskService =
  service_name :: string
  tasks :: nat

text \<open>An invocation of one of the two mutating methods, with its receiver and argument.\<close>

datatype call = Update_call TaskService Task | Add_call TaskService Task

fun receiver :: "call \<Rightarrow> TaskService" where
  "receiver (Update_call s t) = s"
| "receiver (Add_call s t) = s"

fun call_task :: "call \<Rightarrow> Task" where
  "call_task (Update_call s t) = t"
| "call_task (Add_call s t) = t"

fun is_update :: "call \<Rightarrow> bool" where
  "is_update (Update_call s t) = True"
| "is_update (Add_call s t) = False"

text \<open>
  The state of the program: the store of task lists, and the trace of the
  \<open>update_task\<close> and \<open>add_task\<close> invocations made so far (each method logs its
  invocation on entry; the trace records it with the receiver itself).
\<close>

record world =
  heap :: "nat \<Rightarrow> Task list"
  calls :: "call list"

definition new_calls :: "world \<Rightarrow> world \<Rightarrow> call list" where
  "new_calls w w' = drop (length (calls w)) (calls w')"

definition ids :: "Task list \<Rightarrow> string list" where
  "ids ts = map task_id ts"

section \<open>\<open>MockTaskService\<close>\<close>

definition fetch_tasks :: "TaskService \<Rightarrow> world \<Rightarrow> Task list" where
  "fetch_tasks s w = heap w (tasks s)"

text \<open>
  The loop of \<open>update_task\<close>: \<open>for i, t in enumerate(self.tasks)\<close>, replacing the
  entry at the first index whose id matches and returning; \<open>None\<close> when the loop
  runs off the end of the list.
\<close>

fun update_loop :: "Task list \<Rightarrow> Task \<Rightarrow> Task list option" where
  "update_loop [] task = None"
| "update_loop (t # ts) task =
     (if task_id t = task_id task then Some (task # ts)
      else map_option (\<lambda>r. t # r) (update_loop ts task))"

definition not_found_msg :: "Task \<Rightarrow> TaskService \<Rightarrow> string" where
  "not_found_msg task s = ''Task '' @ task_id task @ '' not found in '' @ service_name s @ ''.''"

definition update_task :: "TaskService \<Rightarrow> Task \<Rightarrow> world \<Rightarrow> (exn + unit) \<times> world" where
  "update_task s task w =
     (let w0 = w\<lparr>calls := calls w @ [Update_call s task]\<rparr> in
      case update_loop (heap w0 (tasks s)) task of
        Some ts' \<Rightarrow> (Inr (), w0\<lparr>heap := (heap w0)(tasks s := ts')\<rparr>)
      | None \<Rightarrow> (Inl (SyncError (not_found_msg task s)), w0))"

definition add_task :: "TaskService \<Rightarrow> Task \<Rightarrow> world \<Rightarrow> (exn + unit) \<times> world" where
  "add_task s task w =
     (let w0 = w\<lparr>calls := calls w @ [Add_call s task]\<rparr> in
      (Inr (), w0\<lparr>heap := (heap w0)(tasks s := heap w0 (tasks s) @ [task])\<rparr>))"

section \<open>\<open>sync_tasks\<close>\<close>

text \<open>
  A Python \<open>dict\<close> keeps its keys in insertion order; storing under a key that is
  already there replaces the value and keeps the key's place.
\<close>

fun dict_set :: "(string \<times> Task) list \<Rightarrow> string \<Rightarrow> Task \<Rightarrow> (string \<times> Task) list" where
  "dict_set [] k v = [(k, v)]"
| "dict_set ((k', v') # d) k v =
     (if k' = k then (k, v) # d else (k', v') # dict_set d k v)"

text \<open>The comprehension \<open>{task.task_id: task for task in ...}\<close>.\<close>

definition tasks_by_id :: "Task list \<Rightarrow> (string \<times> Task) list" where
  "tasks_by_id ts = foldl (\<lambda>d t. dict_set d (task_id t) t) [] ts"

text \<open>
  The loop \<open>for task_id, task1 in tasks1.items()\<close>, over the remaining items of
  \<open>tasks1\<close>, with the dictionary \<open>tasks2\<close> built before the loop. An exception of
  \<open>update_task\<close> ends the loop and leaves the state as it is at that moment.
\<close>

fun sync_items :: "TaskService \<Rightarrow> (string \<times> Task) list \<Rightarrow> (string \<times> Task) list \<Rightarrow> world
    \<Rightarrow> (exn + unit) \<times> world" where
  "sync_items service2 tasks2 [] w = (Inr (), w)"
| "sync_items service2 tasks2 ((tid, task1) # rest) w =
     (case map_of tasks2 tid of
        Some task2 \<Rightarrow>
          (if completed task1 \<noteq> completed task2 then
             (case update_task service2 task1 w of
                (Inl e, w') \<Rightarrow> (Inl e, w')
              | (Inr u, w') \<Rightarrow> sync_items service2 tasks2 rest w')
           else sync_items service2 tasks2 rest w)
      | None \<Rightarrow>
          (case add_task service2 task1 w of
             (Inl e, w') \<Rightarrow> (Inl e, w')
           | (Inr u, w') \<Rightarrow> sync_items service2 tasks2 rest w'))"

text \<open>\<open>sync_tasks\<close>: the \<open>except\<close> clause logs and re-raises, so the outcome is the
  loop's.\<close>

definition sync_tasks :: "TaskService \<Rightarrow> TaskService \<Rightarrow> world \<Rightarrow> (exn + unit) \<times> world" where
  "sync_tasks service1 service2 w =
     (let tasks1 = tasks_by_id (fetch_tasks service1 w);
          tasks2 = tasks_by_id (fetch_tasks service2 w)
      in sync_items service2 tasks2 tasks1 w)"

section \<open>Serialization\<close>

text \<open>
  Python's \<open>datetime.isoformat()\<close>: \<open>"%04d-%02d-%02dT%02d:%02d:%02d"\<close>, followed by
  \<open>".%06d"\<close> when the microsecond is not zero, followed for an aware datetime by its UTC
  offset: a sign, \<open>"%02d:%02d"\<close> for hours and minutes, then \<open>":%02d"\<close> when the offset has
  seconds or microseconds, and \<open>".%06d"\<close> when it has microseconds. \<open>digits\<close> is the
  decimal numeral of a number and \<open>zero_pad w\<close> the format \<open>%0wd\<close>, which pads with zeros
  on the left and never truncates.
\<close>

definition digit_char :: "nat \<Rightarrow> char" where
  "digit_char n = char_of (48 + n)"

fun digits :: "nat \<Rightarrow> string" where
  "digits n = (if n < 10 then [digit_char n] else digits (n div 10) @ [digit_char (n mod 10)])"

declare digits.simps [simp del]

definition zero_pad :: "nat \<Rightarrow> nat \<Rightarrow> string" where
  "zero_pad w n = replicate (w - length (digits n)) (CHR ''0'') @ digits n"

definition format_offset :: "int \<Rightarrow> string" where
  "format_offset off =
     (let a = nat \<bar>off\<bar>;
          hh = a div 3600000000;
          mm = (a mod 3600000000) div 60000000;
          ss = (a mod 3600000000) mod 60000000
      in (if off < 0 then ''-'' else ''+'') @ zero_pad 2 hh @ '':'' @ zero_pad 2 mm
         @ (if ss \<noteq> 0 then
              '':'' @ zero_pad 2 (ss div 1000000)
              @ (if ss mod 1000000 \<noteq> 0 then ''.'' @ zero_pad 6 (ss mod 1000000) else [])
            else []))"

definition isoformat :: "datetime \<Rightarrow> string" where
  "isoformat d =
     zero_pad 4 (year d) @ ''-'' @ zero_pad 2 (month d) @ ''-'' @ zero_pad 2 (day d) @ ''T''
     @ zero_pad 2 (hour d) @ '':'' @ zero_pad 2 (minute d) @ '':'' @ zero_pad 2 (second d)
     @ (if microsecond d \<noteq> 0 then ''.'' @ zero_pad 6 (microsecond d) else [])
     @ (case utcoffset d of None \<Rightarrow> [] | Some off \<Rightarrow> format_offset off)"

text \<open>
  The range checks of Python's \<open>datetime\<close> constructor, and the bound that Python puts
  on a UTC offset (strictly less than one day either way): every datetime object
  satisfies them.
\<close>

definition is_leap :: "nat \<Rightarrow> bool" where
  "is_leap y \<longleftrightarrow> y mod 4 = 0 \<and> (y mod 100 \<noteq> 0 \<or> y mod 400 = 0)"

definition days_in_month :: "nat \<Rightarrow> nat \<Rightarrow> nat" where
  "days_in_month y m =
     (if m = 2 then (if is_leap y then 29 else 28)
      else if m = 4 \<or> m = 6 \<or> m = 9 \<or> m = 11 then 30 else 31)"

definition datetime_ok :: "datetime \<Rightarrow> bool" where
  "datetime_ok d \<longleftrightarrow>
     1 \<le> year d \<and> year d \<le> 9999 \<and> 1 \<le> month d \<and> month d \<le> 12
     \<and> 1 \<le> day d \<and> day d \<le> days_in_month (year d) (month d)
     \<and> hour d \<le> 23 \<and> minute d \<le> 59 \<and> second d \<le> 59 \<and> microsecond d \<le> 999999
     \<and> (case utcoffset d of
           None \<Rightarrow> True
         | Some off \<Rightarrow> - 86400000000 < off \<and> off < 86400000000)"

text \<open>
  \<open>Task.to_dict\<close>. The values of the dictionary are strings and a boolean; the
  dictionary is listed in insertion order. \<open>self.due_date.isoformat()\<close> raises
  \<open>AttributeError\<close> when \<open>due_date\<close> is \<open>None\<close>.
\<close>

datatype pyval = PyStr string | PyBool bool

definition no_isoformat_msg :: string where
  "no_isoformat_msg = [CHR 0x27] @ ''NoneType'' @ [CHR 0x27] @ '' object has no attribute ''
     @ [CHR 0x27] @ ''isoformat'' @ [CHR 0x27]"

definition to_dict :: "Task \<Rightarrow> exn + (string \<times> pyval) list" where
  "to_dict t =
     (case due_date t of
        None \<Rightarrow> Inl (AttributeError no_isoformat_msg)
      | Some d \<Rightarrow>
          Inr [(''task_id'', PyStr (task_id t)),
               (''name'', PyStr (name t)),
               (''completed'', PyBool (completed t)),
               (''due_date'', PyStr (isoformat d))])"

text \<open>
  Modelled from the spec: the deserializer. The source has \<open>to_dict\<close> and nothing that
  reads a dictionary back; the spec asks that a Task, serialized and read back, gives a
  field-equal Task, with the due date in ISO-8601. The functions from here to
  \<open>round_trip\<close> are that missing reader: decimal fields of fixed width, the separators,
  an optional fraction of six digits, an optional UTC offset.
\<close>

definition is_digit :: "char \<Rightarrow> bool" where
  "is_digit c \<longleftrightarrow> 48 \<le> (of_char c :: nat) \<and> (of_char c :: nat) \<le> 57"

definition digit_val :: "char \<Rightarrow> nat" where
  "digit_val c = of_char c - 48"

fun read_num :: "nat \<Rightarrow> nat \<Rightarrow> string \<Rightarrow> (nat \<times> string) option" where
  "read_num 0 acc s = Some (acc, s)"
| "read_num (Suc w) acc [] = None"
| "read_num (Suc w) acc (c # s) =
     (if is_digit c then read_num w (10 * acc + digit_val c) s else None)"

fun expect :: "char \<Rightarrow> string \<Rightarrow> string option" where
  "expect c [] = None"
| "expect c (c' # s) = (if c' = c then Some s else None)"

fun read_opt_fraction :: "string \<Rightarrow> (nat \<times> string) option" where
  "read_opt_fraction [] = Some (0, [])"
| "read_opt_fraction (c # s) = (if c = CHR ''.'' then read_num 6 0 s else Some (0, c # s))"

fun read_offset_seconds :: "string \<Rightarrow> nat option" where
  "read_offset_seconds [] = Some 0"
| "read_offset_seconds (c # s) =
     (if c = CHR '':'' then
        (case read_num 2 0 s of
           Some (ss, s1) \<Rightarrow>
             (case read_opt_fraction s1 of
                Some (us, []) \<Rightarrow> Some (ss * 1000000 + us)
              | _ \<Rightarrow> None)
         | None \<Rightarrow> None)
      else None)"

fun read_offset :: "string \<Rightarrow> int option option" where
  "read_offset [] = Some None"
| "read_offset (c # s) =
     (if c = CHR ''+'' \<or> c = CHR ''-'' then
        Option.bind (read_num 2 0 s) (\<lambda>(hh, s1).
        Option.bind (expect (CHR '':'') s1) (\<lambda>s2.
        Option.bind (read_num 2 0 s2) (\<lambda>(mm, s3).
        Option.bind (read_offset_seconds s3) (\<lambda>sus.
          let a = int (hh * 3600000000 + mm * 60000000 + sus)
          in Some (Some (if c = CHR ''-'' then - a else a))))))
      else None)"

text \<open>
  Modelled from the spec: the inverse of \<open>isoformat\<close>, missing from the source. It reads
  the format that \<open>isoformat\<close> writes and applies the range checks of the constructor.
\<close>

definition fromisoformat :: "string \<Rightarrow> datetime option" where
  "fromisoformat s0 =
     Option.bind (read_num 4 0 s0) (\<lambda>(y, s1).
     Option.bind (expect (CHR ''-'') s1) (\<lambda>s2.
     Option.bind (read_num 2 0 s2) (\<lambda>(mo, s3).
     Option.bind (expect (CHR ''-'') s3) (\<lambda>s4.
     Option.bind (read_num 2 0 s4) (\<lambda>(dd, s5).
     Option.bind (expect (CHR ''T'') s5) (\<lambda>s6.
     Option.bind (read_num 2 0 s6) (\<lambda>(h, s7).
     Option.bind (expect (CHR '':'') s7) (\<lambda>s8.
     Option.bind (read_num 2 0 s8) (\<lambda>(mi, s9).
     Option.bind (expect (CHR '':'') s9) (\<lambda>s10.
     Option.bind (read_num 2 0 s10) (\<lambda>(se, s11).
     Option.bind (read_opt_fraction s11) (\<lambda>(us, s12).
     Option.bind (read_offset s12) (\<lambda>tz.
       let d = \<lparr>year = y, month = mo, day = dd, hour = h, minute = mi, second = se,
                microsecond = us, utcoffset = tz\<rparr>
       in if datetime_ok d then Some d else None)))))))))))))"





section \<open>Closed forms of the loop's effect\<close>

text \<open>
  These definitions are not in the source: they state what the loop of \<open>sync_tasks\<close>
  computes, and the lemmas below prove that it does.

  \<open>planned\<close>: the invocations the loop makes, read off the two dictionaries.
\<close>

fun planned :: "TaskService \<Rightarrow> (string \<times> Task) list \<Rightarrow> (string \<times> Task) list \<Rightarrow> call list" where
  "planned service2 tasks2 [] = []"
| "planned service2 tasks2 ((tid, task1) # rest) =
     (case map_of tasks2 tid of
        Some task2 \<Rightarrow> if completed task1 \<noteq> completed task2 then [Update_call service2 task1] else []
      | None \<Rightarrow> [Add_call service2 task1]) @ planned service2 tasks2 rest"

text \<open>\<open>merged\<close>: the list of service2 after the loop, when its ids are pairwise distinct.\<close>

definition merge_task :: "(string \<times> Task) list \<Rightarrow> Task \<Rightarrow> Task" where
  "merge_task items t =
     (case map_of items (task_id t) of
        Some t1 \<Rightarrow> if completed t1 \<noteq> completed t then t1 else t
      | None \<Rightarrow> t)"

definition merged :: "(string \<times> Task) list \<Rightarrow> Task list \<Rightarrow> Task list" where
  "merged items ts = map (merge_task items) ts @ map snd (filter (\<lambda>(k, v). k \<notin> set (ids ts)) items)"

text \<open>The shape of a dictionary built by \<open>tasks_by_id\<close>.\<close>

definition well_keyed :: "(string \<times> Task) list \<Rightarrow> bool" where
  "well_keyed d \<longleftrightarrow> distinct (map fst d) \<and> (\<forall>(k, v) \<in> set d. task_id v = k)"

text \<open>The value that the dictionary built from a list holds under an id of the list:
  the last task of that id.\<close>

definition entry :: "string \<Rightarrow> Task list \<Rightarrow> Task" where
  "entry k ts = last (filter (\<lambda>t. task_id t = k) ts)"

section \<open>Example states\<close>

text \<open>
  The tasks that \<open>MockTaskService.__init__\<close> creates, the constructor itself (the
  address of the new list is chosen by the caller), and the two services of \<open>main\<close>.
\<close>

definition mk_datetime :: "nat \<Rightarrow> nat \<Rightarrow> nat \<Rightarrow> datetime" where
  "mk_datetime y m d =
     \<lparr>year = y, month = m, day = d, hour = 0, minute = 0, second = 0, microsecond = 0,
       utcoffset = None\<rparr>"

definition task_a :: Task where
  "task_a = \<lparr>task_id = ''1'', name = ''Task 1'', completed = False,
              due_date = Some (mk_datetime 2023 10 1)\<rparr>"

definition task_b :: Task where
  "task_b = \<lparr>task_id = ''2'', name = ''Task 2'', completed = True,
              due_date = Some (mk_datetime 2023 10 5)\<rparr>"

definition initial_tasks :: "Task list" where
  "initial_tasks = [task_a, task_b]"

definition MockTaskService_init :: "string \<Rightarrow> nat \<Rightarrow> world \<Rightarrow> TaskService \<times> world" where
  "MockTaskService_init nm a w =
     (\<lparr>service_name = nm, tasks = a\<rparr>, w\<lparr>heap := (heap w)(a := initial_tasks)\<rparr>)"

definition svc_A :: TaskService where
  "svc_A = \<lparr>service_name = ''Mock Service 1'', tasks = 0\<rparr>"

definition svc_B :: TaskService where
  "svc_B = \<lparr>service_name = ''Mock Service 2'', tasks = 1\<rparr>"

definition world_of :: "Task list \<Rightarrow> Task list \<Rightarrow> world" where
  "world_of l1 l2 = \<lparr>heap = (\<lambda>a. [])(0 := l1, 1 := l2), calls = []\<rparr>"

section \<open>The loop of \<open>update_task\<close>\<close>

lemma update_loop_None: "update_loop ts task = None \<longleftrightarrow> task_id task \<notin> set (ids ts)"
  by (induction ts) (auto simp: ids_def)

lemma update_loop_Some:
  "update_loop ts task = Some ts' \<Longrightarrow>
     \<exists>i < length ts. task_id (ts ! i) = task_id task
        \<and> (\<forall>j < i. task_id (ts ! j) \<noteq> task_id task) \<and> ts' = ts[i := task]"
proof (induction ts arbitrary: ts')
  case Nil
  then show ?case by simp
next
  case (Cons t ts)
  show ?case
  proof (cases "task_id t = task_id task")
    case True
    with Cons.prems have "ts' = (t # ts)[0 := task]" by simp
    with True show ?thesis by (intro exI[of _ 0]) simp
  next
    case False
    with Cons.prems obtain r where r: "update_loop ts task = Some r" and ts': "ts' = t # r"
      by auto
    from Cons.IH[OF r] obtain i where i: "i < length ts" "task_id (ts ! i) = task_id task"
      "\<forall>j < i. task_id (ts ! j) \<noteq> task_id task" "r = ts[i := task]" by blast
    have "\<forall>j < Suc i. task_id ((t # ts) ! j) \<noteq> task_id task"
      using False i(3) by (auto simp: nth_Cons split: nat.splits)
    with i ts' show ?thesis by (intro exI[of _ "Suc i"]) simp
  qed
qed

section \<open>Dictionaries\<close>

lemma map_of_dict_set: "map_of (dict_set d k v) = (map_of d)(k \<mapsto> v)"
  by (induction d) auto

lemma keys_dict_set: "fst ` set (dict_set d k v) = insert k (fst ` set d)"
  by (simp add: dom_map_of_conv_image_fst[symmetric] map_of_dict_set)

lemma distinct_dict_set: "distinct (map fst d) \<Longrightarrow> distinct (map fst (dict_set d k v))"
  by (induction d) (auto simp: keys_dict_set)

lemma set_dict_set: "set (dict_set d k v) \<subseteq> insert (k, v) (set d)"
  by (induction d) (auto split: if_splits)

lemma dict_set_fresh: "k \<notin> fst ` set d \<Longrightarrow> dict_set d k v = d @ [(k, v)]"
  by (induction d) auto

lemma foldl_dict_distinct:
  "distinct (map fst d) \<Longrightarrow> distinct (map fst (foldl (\<lambda>d t. dict_set d (task_id t) t) d ts))"
  by (induction ts arbitrary: d) (auto simp: distinct_dict_set)

lemma foldl_dict_keys:
  "set (map fst (foldl (\<lambda>d t. dict_set d (task_id t) t) d ts)) = set (map fst d) \<union> set (ids ts)"
  by (induction ts arbitrary: d) (auto simp: keys_dict_set ids_def)

lemma foldl_dict_mem:
  "(k, v) \<in> set (foldl (\<lambda>d t. dict_set d (task_id t) t) d ts)
     \<Longrightarrow> (k, v) \<in> set d \<or> (v \<in> set ts \<and> task_id v = k)"
proof (induction ts arbitrary: d)
  case Nil
  then show ?case by simp
next
  case (Cons t ts)
  from Cons.prems have "(k, v) \<in> set (foldl (\<lambda>d t. dict_set d (task_id t) t) (dict_set d (task_id t) t) ts)"
    by simp
  from Cons.IH[OF this] show ?case
    using set_dict_set[of d "task_id t" t] by auto
qed

lemma foldl_dict_map_of:
  "map_of (foldl (\<lambda>d t. dict_set d (task_id t) t) d ts) k =
     (if filter (\<lambda>t. task_id t = k) ts = [] then map_of d k
      else Some (last (filter (\<lambda>t. task_id t = k) ts)))"
  by (induction ts arbitrary: d) (auto simp: map_of_dict_set)

lemma foldl_dict_unique:
  "distinct (map fst d @ ids ts) \<Longrightarrow>
     foldl (\<lambda>d t. dict_set d (task_id t) t) d ts = d @ map (\<lambda>t. (task_id t, t)) ts"
  by (induction ts arbitrary: d) (auto simp: dict_set_fresh ids_def)

lemma tasks_by_id_well_keyed: "well_keyed (tasks_by_id ts)"
  unfolding well_keyed_def tasks_by_id_def
  using foldl_dict_distinct[of "[]" ts] foldl_dict_mem[of _ _ "[]" ts] by auto

lemma tasks_by_id_keys: "set (map fst (tasks_by_id ts)) = set (ids ts)"
  unfolding tasks_by_id_def using foldl_dict_keys[of "[]" ts] by simp

lemma tasks_by_id_mem: "(k, v) \<in> set (tasks_by_id ts) \<Longrightarrow> v \<in> set ts \<and> task_id v = k"
  unfolding tasks_by_id_def using foldl_dict_mem[of k v "[]" ts] by simp

lemma tasks_by_id_map_of:
  "map_of (tasks_by_id ts) k =
     (if filter (\<lambda>t. task_id t = k) ts = [] then None
      else Some (last (filter (\<lambda>t. task_id t = k) ts)))"
  unfolding tasks_by_id_def using foldl_dict_map_of[of "[]" ts k] by simp

lemma tasks_by_id_unique: "distinct (ids ts) \<Longrightarrow> tasks_by_id ts = map (\<lambda>t. (task_id t, t)) ts"
  unfolding tasks_by_id_def using foldl_dict_unique[of "[]" ts] by simp

lemma map_of_unique_ids:
  "distinct (ids ts) \<Longrightarrow> t \<in> set ts \<Longrightarrow> map_of (map (\<lambda>t. (task_id t, t)) ts) (task_id t) = Some t"
  by (induction ts) (auto simp: ids_def intro: rev_image_eqI)

lemma tasks_by_id_lookup:
  "distinct (ids ts) \<Longrightarrow> map_of (tasks_by_id ts) k = Some t \<longleftrightarrow> t \<in> set ts \<and> task_id t = k"
  using tasks_by_id_mem[of k t ts] map_of_unique_ids[of ts t] tasks_by_id_unique[of ts]
  by (auto dest: map_of_SomeD)

section \<open>The loop of \<open>sync_tasks\<close>\<close>

lemma update_loop_ids: "update_loop ts task = Some ts' \<Longrightarrow> ids ts' = ids ts"
  by (induction ts arbitrary: ts') (auto simp: ids_def split: if_splits)

lemma update_loop_unique:
  "distinct (ids ts) \<Longrightarrow> task_id task \<in> set (ids ts) \<Longrightarrow>
     update_loop ts task = Some (map (\<lambda>t. if task_id t = task_id task then task else t) ts)"
proof (induction ts)
  case Nil
  then show ?case by (simp add: ids_def)
next
  case (Cons t ts)
  show ?case
  proof (cases "task_id t = task_id task")
    case True
    with Cons.prems(1) have "\<forall>u \<in> set ts. task_id u \<noteq> task_id task"
      by (auto simp: ids_def intro: rev_image_eqI)
    then have "map (\<lambda>t. if task_id t = task_id task then task else t) ts = ts"
      by (simp add: map_idI)
    with True show ?thesis by simp
  next
    case False
    with Cons show ?thesis by (simp add: ids_def)
  qed
qed

lemma update_task_found:
  assumes "update_loop (heap w (tasks s)) task = Some ts'"
  shows "update_task s task w =
           (Inr (), \<lparr>heap = (heap w)(tasks s := ts'), calls = calls w @ [Update_call s task]\<rparr>)"
  using assms by (simp add: update_task_def)

lemma add_task_eq:
  "add_task s task w =
     (Inr (), \<lparr>heap = (heap w)(tasks s := heap w (tasks s) @ [task]),
               calls = calls w @ [Add_call s task]\<rparr>)"
  by (simp add: add_task_def)

lemma sync_items_noop:
  "\<forall>(k, v) \<in> set items. \<exists>t2. map_of tasks2 k = Some t2 \<and> completed t2 = completed v
     \<Longrightarrow> sync_items s2 tasks2 items w = (Inr (), w)"
  by (induction items) auto

lemma planned_noop:
  "\<forall>(k, v) \<in> set items. \<exists>t2. map_of tasks2 k = Some t2 \<and> completed t2 = completed v
     \<Longrightarrow> planned s2 tasks2 items = []"
  by (induction items) auto

lemma sync_items_general:
  assumes "\<forall>(k, v) \<in> set items. task_id v = k"
    and "fst ` set tasks2 \<subseteq> set (ids (heap w (tasks s2)))"
  shows "fst (sync_items s2 tasks2 items w) = Inr ()
       \<and> calls (snd (sync_items s2 tasks2 items w)) = calls w @ planned s2 tasks2 items
       \<and> (\<forall>a. a \<noteq> tasks s2 \<longrightarrow> heap (snd (sync_items s2 tasks2 items w)) a = heap w a)
       \<and> set (ids (heap (snd (sync_items s2 tasks2 items w)) (tasks s2)))
            = set (ids (heap w (tasks s2))) \<union> fst ` set items"
  using assms
proof (induction items arbitrary: w)
  case Nil
  then show ?case by simp
next
  case (Cons item rest)
  obtain k v where item: "item = (k, v)" by (cases item)
  from Cons.prems(1) item have kv: "task_id v = k" and rest: "\<forall>(k, v) \<in> set rest. task_id v = k"
    by auto
  show ?case
  proof (cases "map_of tasks2 k")
    case None
    let ?w' = "\<lparr>heap = (heap w)(tasks s2 := heap w (tasks s2) @ [v]),
               calls = calls w @ [Add_call s2 v]\<rparr>"
    have sub: "fst ` set tasks2 \<subseteq> set (ids (heap ?w' (tasks s2)))"
      using Cons.prems(2) by (auto simp: ids_def)
    have step: "sync_items s2 tasks2 (item # rest) w = sync_items s2 tasks2 rest ?w'"
      using None item by (simp add: add_task_eq)
    from Cons.IH[OF rest sub] show ?thesis
      unfolding step using None item kv by (auto simp: ids_def)
  next
    case (Some t2)
    show ?thesis
    proof (cases "completed v = completed t2")
      case True
      have step: "sync_items s2 tasks2 (item # rest) w = sync_items s2 tasks2 rest w"
        using Some True item by simp
      from Some have "k \<in> fst ` set tasks2"
        by (auto dest!: map_of_SomeD intro: rev_image_eqI)
      with Cons.prems(2) have "k \<in> set (ids (heap w (tasks s2)))" by auto
      with Cons.IH[OF rest Cons.prems(2)] show ?thesis
        unfolding step using Some True item by auto
    next
      case False
      from Some have "k \<in> fst ` set tasks2"
        by (auto dest!: map_of_SomeD intro: rev_image_eqI)
      with Cons.prems(2) kv have "task_id v \<in> set (ids (heap w (tasks s2)))" by auto
      then obtain ts' where ts': "update_loop (heap w (tasks s2)) v = Some ts'"
        using update_loop_None[of "heap w (tasks s2)" v] by auto
      let ?w' = "\<lparr>heap = (heap w)(tasks s2 := ts'), calls = calls w @ [Update_call s2 v]\<rparr>"
      have sub: "fst ` set tasks2 \<subseteq> set (ids (heap ?w' (tasks s2)))"
        using Cons.prems(2) update_loop_ids[OF ts'] by simp
      have step: "sync_items s2 tasks2 (item # rest) w = sync_items s2 tasks2 rest ?w'"
        using Some False item by (simp add: update_task_found[OF ts'])
      from Cons.IH[OF rest sub] show ?thesis
        unfolding step using Some False item update_loop_ids[OF ts'] kv
          \<open>task_id v \<in> set (ids (heap w (tasks s2)))\<close> by auto
    qed
  qed
qed

lemma merge_task_id: "well_keyed items \<Longrightarrow> task_id (merge_task items t) = task_id t"
  by (auto simp: merge_task_def well_keyed_def split: option.splits dest!: map_of_SomeD)

lemma sync_items_unique:
  assumes "well_keyed items"
    and "distinct (ids (heap w (tasks s2)))"
    and "\<forall>(k, v) \<in> set items.
           (case map_of tasks2 k of
              Some t2 \<Rightarrow> t2 \<in> set (heap w (tasks s2)) \<and> task_id t2 = k
            | None \<Rightarrow> k \<notin> set (ids (heap w (tasks s2))))"
  shows "heap (snd (sync_items s2 tasks2 items w)) (tasks s2) = merged items (heap w (tasks s2))"
  using assms
proof (induction items arbitrary: w)
  case Nil
  then show ?case by (simp add: merged_def merge_task_def map_idI)
next
  case (Cons item rest)
  obtain k v where item: "item = (k, v)" by (cases item)
  let ?cur = "heap w (tasks s2)"
  from Cons.prems(1) item have kv: "task_id v = k" and fresh: "k \<notin> fst ` set rest"
    and wk: "well_keyed rest"
    by (auto simp: well_keyed_def)
  have rest_None: "map_of rest k = None"
    using fresh by (simp add: map_of_eq_None_iff)
  have mv: "merge_task rest v = v"
    using rest_None kv by (simp add: merge_task_def)
  have other: "merge_task (item # rest) t = merge_task rest t" if "task_id t \<noteq> k" for t
    using that item by (simp add: merge_task_def)
  have inv_rest: "\<forall>(k', v') \<in> set rest.
           (case map_of tasks2 k' of
              Some t2 \<Rightarrow> t2 \<in> set ?cur \<and> task_id t2 = k'
            | None \<Rightarrow> k' \<notin> set (ids ?cur))"
    using Cons.prems(3) by simp
  have rest_ne: "\<forall>(k', v') \<in> set rest. k' \<noteq> k"
    using fresh by (auto intro: rev_image_eqI)
  show ?case
  proof (cases "map_of tasks2 k")
    case None
    with Cons.prems(3) item have knew: "k \<notin> set (ids ?cur)" by simp
    let ?w' = "\<lparr>heap = (heap w)(tasks s2 := ?cur @ [v]), calls = calls w @ [Add_call s2 v]\<rparr>"
    have step: "sync_items s2 tasks2 (item # rest) w = sync_items s2 tasks2 rest ?w'"
      using None item by (simp add: add_task_eq)
    have d': "distinct (ids (heap ?w' (tasks s2)))"
      using Cons.prems(2) knew kv by (simp add: ids_def)
    have inv': "\<forall>(k', v') \<in> set rest.
           (case map_of tasks2 k' of
              Some t2 \<Rightarrow> t2 \<in> set (heap ?w' (tasks s2)) \<and> task_id t2 = k'
            | None \<Rightarrow> k' \<notin> set (ids (heap ?w' (tasks s2))))"
    proof (clarify)
      fix k' v' assume m: "(k', v') \<in> set rest"
      with rest_ne have ne: "k' \<noteq> k" by auto
      from inv_rest m have c: "case map_of tasks2 k' of
              Some t2 \<Rightarrow> t2 \<in> set ?cur \<and> task_id t2 = k'
            | None \<Rightarrow> k' \<notin> set (ids ?cur)" by auto
      show "case map_of tasks2 k' of
              Some t2 \<Rightarrow> t2 \<in> set (heap ?w' (tasks s2)) \<and> task_id t2 = k'
            | None \<Rightarrow> k' \<notin> set (ids (heap ?w' (tasks s2)))"
        using c ne kv by (cases "map_of tasks2 k'") (auto simp: ids_def)
    qed
    have m1: "map (merge_task (item # rest)) ?cur = map (merge_task rest) ?cur"
    proof (rule map_cong[OF refl])
      fix t assume "t \<in> set ?cur"
      with knew have "task_id t \<noteq> k" by (auto simp: ids_def)
      then show "merge_task (item # rest) t = merge_task rest t" by (rule other)
    qed
    have f1: "filter (\<lambda>(k', v'). k' \<notin> set (ids (?cur @ [v]))) rest
            = filter (\<lambda>(k', v'). k' \<notin> set (ids ?cur)) rest"
      using rest_ne kv by (intro filter_cong) (auto simp: ids_def)
    have "heap (snd (sync_items s2 tasks2 rest ?w')) (tasks s2) = merged rest (?cur @ [v])"
      using Cons.IH[OF wk d' inv'] by simp
    also have "\<dots> = merged (item # rest) ?cur"
      using knew item mv m1 f1 by (simp add: merged_def)
    finally show ?thesis unfolding step .
  next
    case (Some t2)
    with Cons.prems(3) item have t2: "t2 \<in> set ?cur" "task_id t2 = k" by auto
    have only: "t = t2" if "t \<in> set ?cur" "task_id t = k" for t
      using that t2 Cons.prems(2) by (auto simp: ids_def distinct_map dest: inj_onD)
    have f0: "filter (\<lambda>(k', v'). k' \<notin> set (ids ?cur)) (item # rest)
            = filter (\<lambda>(k', v'). k' \<notin> set (ids ?cur)) rest"
      using t2 item by (auto simp: ids_def)
    show ?thesis
    proof (cases "completed v = completed t2")
      case True
      have step: "sync_items s2 tasks2 (item # rest) w = sync_items s2 tasks2 rest w"
        using Some True item by simp
      have m1: "map (merge_task (item # rest)) ?cur = map (merge_task rest) ?cur"
      proof (rule map_cong[OF refl])
        fix t assume t: "t \<in> set ?cur"
        show "merge_task (item # rest) t = merge_task rest t"
        proof (cases "task_id t = k")
          case True
          with t only have "t = t2" by blast
          then show ?thesis
            using \<open>completed v = completed t2\<close> item t2 rest_None
            by (simp add: merge_task_def)
        next
          case False
          then show ?thesis by (rule other)
        qed
      qed
      have "heap (snd (sync_items s2 tasks2 rest w)) (tasks s2) = merged rest ?cur"
        using Cons.IH[OF wk Cons.prems(2) inv_rest] .
      also have "\<dots> = merged (item # rest) ?cur"
        using m1 f0 by (simp add: merged_def)
      finally show ?thesis unfolding step .
    next
      case False
      let ?ts' = "map (\<lambda>t. if task_id t = task_id v then v else t) ?cur"
      have found: "update_loop ?cur v = Some ?ts'"
        using update_loop_unique[OF Cons.prems(2), of v] t2 kv by (auto simp: ids_def)
      let ?w' = "\<lparr>heap = (heap w)(tasks s2 := ?ts'), calls = calls w @ [Update_call s2 v]\<rparr>"
      have step: "sync_items s2 tasks2 (item # rest) w = sync_items s2 tasks2 rest ?w'"
        using Some False item by (simp add: update_task_found[OF found])
      have ids': "ids ?ts' = ids ?cur"
        using update_loop_ids[OF found] .
      have d': "distinct (ids (heap ?w' (tasks s2)))"
        using Cons.prems(2) ids' by simp
      have inv': "\<forall>(k', v') \<in> set rest.
           (case map_of tasks2 k' of
              Some t2 \<Rightarrow> t2 \<in> set (heap ?w' (tasks s2)) \<and> task_id t2 = k'
            | None \<Rightarrow> k' \<notin> set (ids (heap ?w' (tasks s2))))"
      proof (clarify)
        fix k' v' assume m: "(k', v') \<in> set rest"
        with rest_ne have ne: "k' \<noteq> k" by auto
        from inv_rest m have c: "case map_of tasks2 k' of
              Some t2 \<Rightarrow> t2 \<in> set ?cur \<and> task_id t2 = k'
            | None \<Rightarrow> k' \<notin> set (ids ?cur)" by auto
        show "case map_of tasks2 k' of
              Some t2 \<Rightarrow> t2 \<in> set (heap ?w' (tasks s2)) \<and> task_id t2 = k'
            | None \<Rightarrow> k' \<notin> set (ids (heap ?w' (tasks s2)))"
        proof (cases "map_of tasks2 k'")
          case None
          with c ids' show ?thesis by simp
        next
          case (Some u)
          with c have u: "u \<in> set ?cur" "task_id u = k'" by auto
          with ne kv have "u \<in> set ?ts'" by (auto simp: image_iff intro!: bexI[of _ u])
          with Some u show ?thesis by simp
        qed
      qed
      have m1: "map (merge_task rest) ?ts' = map (merge_task (item # rest)) ?cur"
        unfolding map_map
      proof (rule map_cong[OF refl])
        fix t assume t: "t \<in> set ?cur"
        show "(merge_task rest \<circ> (\<lambda>t. if task_id t = task_id v then v else t)) t
              = merge_task (item # rest) t"
        proof (cases "task_id t = k")
          case True
          with t only have "t = t2" by blast
          then show ?thesis
            using \<open>completed v \<noteq> completed t2\<close> item t2 kv mv
            by (simp add: merge_task_def)
        next
          case False
          then show ?thesis using other[OF False] kv by simp
        qed
      qed
      have "heap (snd (sync_items s2 tasks2 rest ?w')) (tasks s2) = merged rest ?ts'"
        using Cons.IH[OF wk d' inv'] by simp
      also have "\<dots> = merged (item # rest) ?cur"
        using m1 f0 ids' by (simp add: merged_def)
      finally show ?thesis unfolding step .
    qed
  qed
qed

lemma planned_receiver: "c \<in> set (planned s2 tasks2 items) \<Longrightarrow> receiver c = s2"
  by (induction items) (auto split: option.splits if_splits)

lemma planned_other:
  "k \<notin> fst ` set items \<Longrightarrow> \<forall>(k', v) \<in> set items. task_id v = k' \<Longrightarrow>
     filter (\<lambda>c. task_id (call_task c) = k) (planned s2 tasks2 items) = []"
  by (induction items) (auto split: option.splits)

lemma planned_for_id:
  "well_keyed items \<Longrightarrow> (k, v) \<in> set items \<Longrightarrow>
     filter (\<lambda>c. task_id (call_task c) = k) (planned s2 tasks2 items) =
       (case map_of tasks2 k of
          Some t2 \<Rightarrow> if completed v \<noteq> completed t2 then [Update_call s2 v] else []
        | None \<Rightarrow> [Add_call s2 v])"
proof (induction items)
  case Nil
  then show ?case by simp
next
  case (Cons item rest)
  obtain k' v' where item: "item = (k', v')" by (cases item)
  from Cons.prems(1) item have kv': "task_id v' = k'" and fresh: "k' \<notin> fst ` set rest"
    and wk: "well_keyed rest" and keyed: "\<forall>(k', v) \<in> set rest. task_id v = k'"
    by (auto simp: well_keyed_def)
  show ?case
  proof (cases "k = k'")
    case True
    with fresh have nk: "k \<notin> fst ` set rest" by simp
    then have "(k, v) \<notin> set rest" by (auto intro: rev_image_eqI)
    with Cons.prems(2) item True have vv: "v = v'" by simp
    from planned_other[OF nk keyed] True item kv' vv show ?thesis
      by (auto split: option.splits)
  next
    case False
    with Cons.prems(2) item have m: "(k, v) \<in> set rest" by simp
    from Cons.IH[OF wk m] item kv' False show ?thesis
      by (auto split: option.splits)
  qed
qed

lemma sync_tasks_general:
  "fst (sync_tasks s1 s2 w) = Inr ()
   \<and> calls (snd (sync_tasks s1 s2 w))
       = calls w @ planned s2 (tasks_by_id (heap w (tasks s2))) (tasks_by_id (heap w (tasks s1)))
   \<and> (\<forall>a. a \<noteq> tasks s2 \<longrightarrow> heap (snd (sync_tasks s1 s2 w)) a = heap w a)
   \<and> set (ids (heap (snd (sync_tasks s1 s2 w)) (tasks s2)))
       = set (ids (heap w (tasks s2))) \<union> set (ids (heap w (tasks s1)))"
proof -
  have a: "\<forall>(k, v) \<in> set (tasks_by_id (heap w (tasks s1))). task_id v = k"
    using tasks_by_id_mem by auto
  have b: "fst ` set (tasks_by_id (heap w (tasks s2))) \<subseteq> set (ids (heap w (tasks s2)))"
    using tasks_by_id_keys[of "heap w (tasks s2)"] by simp
  from sync_items_general[OF a b] show ?thesis
    using tasks_by_id_keys[of "heap w (tasks s1)"]
    by (simp add: sync_tasks_def fetch_tasks_def)
qed

lemma sync_tasks_new_calls:
  "new_calls w (snd (sync_tasks s1 s2 w))
     = planned s2 (tasks_by_id (heap w (tasks s2))) (tasks_by_id (heap w (tasks s1)))"
  using sync_tasks_general[of s1 s2 w] by (simp add: new_calls_def)

lemma sync_tasks_alias: "tasks s1 = tasks s2 \<Longrightarrow> sync_tasks s1 s2 w = (Inr (), w)"
proof -
  assume al: "tasks s1 = tasks s2"
  let ?d = "tasks_by_id (heap w (tasks s2))"
  have "distinct (map fst ?d)"
    using tasks_by_id_well_keyed[of "heap w (tasks s2)"] by (simp add: well_keyed_def)
  then have "\<forall>(k, v) \<in> set ?d. \<exists>t2. map_of ?d k = Some t2 \<and> completed t2 = completed v"
    by auto
  from sync_items_noop[OF this] al show ?thesis
    by (simp add: sync_tasks_def fetch_tasks_def)
qed

lemma sync_tasks_unique:
  assumes "distinct (ids (heap w (tasks s2)))"
  shows "heap (snd (sync_tasks s1 s2 w)) (tasks s2)
           = merged (tasks_by_id (heap w (tasks s1))) (heap w (tasks s2))"
proof -
  let ?l2 = "heap w (tasks s2)"
  have inv: "\<forall>(k, v) \<in> set (tasks_by_id (heap w (tasks s1))).
           (case map_of (tasks_by_id ?l2) k of
              Some t2 \<Rightarrow> t2 \<in> set ?l2 \<and> task_id t2 = k
            | None \<Rightarrow> k \<notin> set (ids ?l2))"
  proof (clarify)
    fix k v
    show "case map_of (tasks_by_id ?l2) k of
              Some t2 \<Rightarrow> t2 \<in> set ?l2 \<and> task_id t2 = k
            | None \<Rightarrow> k \<notin> set (ids ?l2)"
    proof (cases "map_of (tasks_by_id ?l2) k")
      case None
      then have "k \<notin> set (ids ?l2)"
        using tasks_by_id_keys[of ?l2] by (simp add: map_of_eq_None_iff)
      then show ?thesis unfolding None by simp
    next
      case (Some t2)
      then show ?thesis
        using tasks_by_id_mem[of k t2 ?l2] by (auto dest: map_of_SomeD)
    qed
  qed
  from sync_items_unique[OF tasks_by_id_well_keyed assms inv] show ?thesis
    by (simp add: sync_tasks_def fetch_tasks_def)
qed

lemma ids_append: "ids (xs @ ys) = ids xs @ ids ys"
  by (simp add: ids_def)

lemma keyed_ids: "\<forall>(k, v) \<in> set d. task_id v = k \<Longrightarrow> ids (map snd d) = map fst d"
  by (induction d) (auto simp: ids_def)

lemma merged_ids:
  assumes wk: "well_keyed items"
  shows "ids (merged items ts) = ids ts @ map fst (filter (\<lambda>(k, v). k \<notin> set (ids ts)) items)"
proof -
  let ?new = "filter (\<lambda>(k, v). k \<notin> set (ids ts)) items"
  have a: "ids (map (merge_task items) ts) = ids ts"
    unfolding ids_def using merge_task_id[OF wk] by simp
  have "\<forall>(k, v) \<in> set ?new. task_id v = k"
    using wk by (auto simp: well_keyed_def)
  then have b: "ids (map snd ?new) = map fst ?new"
    by (rule keyed_ids)
  show ?thesis
    unfolding merged_def ids_append a b ..
qed

lemma merged_distinct:
  assumes "well_keyed items" "distinct (ids ts)"
  shows "distinct (ids (merged items ts))"
proof -
  let ?new = "filter (\<lambda>(k, v). k \<notin> set (ids ts)) items"
  have "distinct (map fst ?new)"
    using assms(1) by (simp add: well_keyed_def distinct_map_filter)
  moreover have "set (ids ts) \<inter> set (map fst ?new) = {}"
  proof (rule ccontr)
    assume "set (ids ts) \<inter> set (map fst ?new) \<noteq> {}"
    then obtain k where k: "k \<in> set (ids ts)" "k \<in> fst ` set ?new" by auto
    from k(2) obtain v where "(k, v) \<in> set ?new" by force
    then have "k \<notin> set (ids ts)" by simp
    with k(1) show False by contradiction
  qed
  ultimately show ?thesis
    using assms(2) by (simp add: merged_ids[OF assms(1)])
qed

lemma merged_mem:
  assumes "well_keyed items" "t \<in> set (merged items ts)"
  shows "(\<exists>u \<in> set ts. t = merge_task items u)
       \<or> ((task_id t, t) \<in> set items \<and> task_id t \<notin> set (ids ts))"
proof -
  let ?new = "filter (\<lambda>(k, v). k \<notin> set (ids ts)) items"
  from assms(2) have "t \<in> merge_task items ` set ts \<or> t \<in> snd ` set ?new"
    by (simp add: merged_def)
  then show ?thesis
  proof
    assume "t \<in> merge_task items ` set ts"
    then show ?thesis by blast
  next
    assume "t \<in> snd ` set ?new"
    then obtain k where k: "(k, t) \<in> set ?new" by force
    then have m: "(k, t) \<in> set items" and nk: "k \<notin> set (ids ts)" by simp_all
    from assms(1) m have "task_id t = k" by (auto simp: well_keyed_def)
    with m nk show ?thesis by simp
  qed
qed

lemma merged_post:
  assumes wk: "well_keyed items" and kv: "(k, v) \<in> set items"
  shows "\<exists>t \<in> set (merged items ts). task_id t = k \<and> completed t = completed v
            \<and> (t = v \<or> t \<in> set ts)"
proof (cases "k \<in> set (ids ts)")
  case True
  then obtain u where u: "u \<in> set ts" "task_id u = k" by (auto simp: ids_def)
  from wk kv have look: "map_of items k = Some v" by (simp add: well_keyed_def)
  from wk kv have idv: "task_id v = k" by (auto simp: well_keyed_def)
  have "merge_task items u \<in> set (merged items ts)" using u by (simp add: merged_def)
  moreover have "merge_task items u = (if completed v \<noteq> completed u then v else u)"
    using look u by (simp add: merge_task_def)
  ultimately show ?thesis using u idv by (cases "completed v = completed u") auto
next
  case False
  from wk kv have idv: "task_id v = k" by (auto simp: well_keyed_def)
  from False kv have "(k, v) \<in> set (filter (\<lambda>(k, v). k \<notin> set (ids ts)) items)" by simp
  then have "v \<in> snd ` set (filter (\<lambda>(k, v). k \<notin> set (ids ts)) items)"
    by (rule rev_image_eqI) simp
  then have "v \<in> set (merged items ts)" by (simp add: merged_def)
  with idv show ?thesis by auto
qed

lemma filter_unique_id:
  "distinct (ids ts) \<Longrightarrow> t \<in> set ts \<Longrightarrow> filter (\<lambda>u. task_id u = task_id t) ts = [t]"
proof (induction ts)
  case Nil
  then show ?case by simp
next
  case (Cons a ts)
  show ?case
  proof (cases "a = t")
    case True
    with Cons.prems(1) have "\<forall>u \<in> set ts. task_id u \<noteq> task_id t"
      by (auto simp: ids_def intro: rev_image_eqI)
    then have "filter (\<lambda>u. task_id u = task_id t) ts = []" by (simp add: filter_empty_conv)
    with True show ?thesis by simp
  next
    case False
    with Cons.prems have "t \<in> set ts" "task_id a \<noteq> task_id t"
      by (auto simp: ids_def intro: rev_image_eqI)
    with Cons show ?thesis by (simp add: ids_def)
  qed
qed

lemma tasks_by_id_entry:
  "k \<in> set (ids ts) \<Longrightarrow> map_of (tasks_by_id ts) k = Some (entry k ts)"
proof -
  assume "k \<in> set (ids ts)"
  then have "filter (\<lambda>t. task_id t = k) ts \<noteq> []"
    by (auto simp: ids_def filter_empty_conv)
  then show ?thesis by (simp add: tasks_by_id_map_of entry_def)
qed

lemma entry_unique: "distinct (ids ts) \<Longrightarrow> t \<in> set ts \<Longrightarrow> entry (task_id t) ts = t"
  by (simp add: entry_def filter_unique_id)

lemma tasks_by_id_entry_mem:
  "k \<in> set (ids ts) \<Longrightarrow> (k, entry k ts) \<in> set (tasks_by_id ts)"
  by (rule map_of_SomeD) (rule tasks_by_id_entry)

lemma same_id_unique:
  "distinct (ids ts) \<Longrightarrow> t \<in> set ts \<Longrightarrow> u \<in> set ts \<Longrightarrow> task_id t = task_id u \<Longrightarrow> t = u"
  by (metis entry_unique)

lemma tasks_by_id_own:
  "distinct (ids ts) \<Longrightarrow> t \<in> set ts \<Longrightarrow> (task_id t, t) \<in> set (tasks_by_id ts)"
  by (simp add: tasks_by_id_unique)

lemma sync_tasks_eq:
  "sync_tasks s1 s2 w
     = sync_items s2 (tasks_by_id (heap w (tasks s2))) (tasks_by_id (heap w (tasks s1))) w"
  by (simp add: sync_tasks_def fetch_tasks_def)

text \<open>
  The state that \<open>main\<close> builds with its two constructor calls, and its run of
  \<open>sync_tasks\<close>: both services hold the same two tasks, so nothing is invoked.
\<close>

lemma main_services:
  "MockTaskService_init ''Mock Service 1'' 0 \<lparr>heap = (\<lambda>a. []), calls = []\<rparr> = (svc_A, w1)
     \<Longrightarrow> MockTaskService_init ''Mock Service 2'' 1 w1
           = (svc_B, world_of initial_tasks initial_tasks)"
  by (auto simp: MockTaskService_init_def svc_A_def svc_B_def world_of_def)

lemma main_sync:
  "sync_tasks svc_A svc_B (world_of initial_tasks initial_tasks)
     = (Inr (), world_of initial_tasks initial_tasks)"
  by (simp add: sync_tasks_def fetch_tasks_def tasks_by_id_def world_of_def svc_A_def svc_B_def
      initial_tasks_def task_a_def task_b_def)

lemmas ex_defs = mk_datetime_def task_a_def task_b_def initial_tasks_def svc_A_def svc_B_def
  world_of_def sync_tasks_def fetch_tasks_def tasks_by_id_def update_task_def add_task_def
  new_calls_def ids_def


section \<open>\<open>update_task\<close>\<close>

text \<open>
  C7. \<open>update_task\<close> raises exactly when no task of the service's list has the given
  id; when it raises, no list of the store has changed; when it succeeds, the
  service's list is the old one with the entry at the first index of that id replaced
  by the given task, and every other list is unchanged.
\<close>

theorem update_task_contract:
  "(isl (fst (update_task s task w)) \<longleftrightarrow> task_id task \<notin> set (ids (heap w (tasks s))))
   \<and> (isl (fst (update_task s task w)) \<longrightarrow> heap (snd (update_task s task w)) = heap w)
   \<and> (\<not> isl (fst (update_task s task w)) \<longrightarrow>
        (\<exists>i < length (heap w (tasks s)).
            task_id (heap w (tasks s) ! i) = task_id task
          \<and> (\<forall>j < i. task_id (heap w (tasks s) ! j) \<noteq> task_id task)
          \<and> heap (snd (update_task s task w))
              = (heap w)(tasks s := (heap w (tasks s))[i := task])))"
proof (cases "update_loop (heap w (tasks s)) task")
  case None
  then show ?thesis
    using update_loop_None[of "heap w (tasks s)" task] by (simp add: update_task_def)
next
  case (Some ts')
  from update_loop_Some[OF Some] obtain i where
    "i < length (heap w (tasks s))" "task_id (heap w (tasks s) ! i) = task_id task"
    "\<forall>j < i. task_id (heap w (tasks s) ! j) \<noteq> task_id task"
    "ts' = (heap w (tasks s))[i := task]" by blast
  moreover have "task_id task \<in> set (ids (heap w (tasks s)))"
    using update_loop_None[of "heap w (tasks s)" task] Some by auto
  ultimately show ?thesis using Some by (auto simp: update_task_def)
qed

theorem update_task_contract_witness:
  "isl (fst (update_task svc_A (task_a\<lparr>task_id := ''3''\<rparr>) (world_of initial_tasks [])))
   \<and> heap (snd (update_task svc_A (task_a\<lparr>task_id := ''3''\<rparr>) (world_of initial_tasks [])))
       = heap (world_of initial_tasks [])
   \<and> \<not> isl (fst (update_task svc_A (task_a\<lparr>completed := True\<rparr>) (world_of initial_tasks [])))
   \<and> heap (snd (update_task svc_A (task_a\<lparr>completed := True\<rparr>) (world_of initial_tasks []))) 0
       = [task_a\<lparr>completed := True\<rparr>, task_b]"
  using update_task_contract[of svc_A "task_a\<lparr>task_id := ''3''\<rparr>" "world_of initial_tasks []"]
    update_task_contract[of svc_A "task_a\<lparr>completed := True\<rparr>" "world_of initial_tasks []"]
  by (simp add: ex_defs)

section \<open>Direction of the synchronization\<close>

text \<open>
  C3. \<open>sync_tasks(service1, service2)\<close> leaves the task list of service1 as it was,
  also when the two services share their list, and every \<open>update_task\<close> and
  \<open>add_task\<close> invocation it makes has service2 as its receiver.
\<close>

theorem sync_tasks_frame:
  "heap (snd (sync_tasks service1 service2 w)) (tasks service1) = heap w (tasks service1)
   \<and> calls (snd (sync_tasks service1 service2 w))
        = calls w @ new_calls w (snd (sync_tasks service1 service2 w))
   \<and> (\<forall>c \<in> set (new_calls w (snd (sync_tasks service1 service2 w))). receiver c = service2)"
proof (cases "tasks service1 = tasks service2")
  case True
  then show ?thesis by (simp add: sync_tasks_alias new_calls_def)
next
  case False
  then show ?thesis
    using sync_tasks_general[of service1 service2 w] planned_receiver
    by (auto simp: sync_tasks_new_calls)
qed

theorem sync_tasks_frame_witness:
  "heap (snd (sync_tasks svc_A svc_B (world_of initial_tasks [task_a\<lparr>completed := True\<rparr>]))) 0
     = initial_tasks
   \<and> new_calls (world_of initial_tasks [task_a\<lparr>completed := True\<rparr>])
        (snd (sync_tasks svc_A svc_B (world_of initial_tasks [task_a\<lparr>completed := True\<rparr>])))
     = [Update_call svc_B task_a, Add_call svc_B task_b]
   \<and> receiver (Update_call svc_B task_a) = svc_B \<and> receiver (Add_call svc_B task_b) = svc_B"
  using sync_tasks_frame[of svc_A svc_B "world_of initial_tasks [task_a\<lparr>completed := True\<rparr>]"]
  by (simp add: ex_defs)


section \<open>Resolution of a differing completion flag\<close>

text \<open>
  C1 (as the code has it). \<open>Task\<close> has no \<open>updatedAt\<close> field, and \<open>sync_tasks\<close> never
  looks at a time: service1 wins. With ids pairwise distinct in each service, when a
  task is not completed in service1 and the task of the same id is completed in
  service2, the run succeeds, service1's list is unchanged, service2 then holds
  service1's task under that id and nothing else (so both report \<open>completed = False\<close>),
  the only invocation for that id is one \<open>update_task\<close> on service2 with service1's
  task, and service1 receives no invocation.
\<close>

theorem sync_service1_wins:
  assumes d1: "distinct (ids (heap w (tasks service1)))"
    and d2: "distinct (ids (heap w (tasks service2)))"
    and m1: "t1 \<in> set (heap w (tasks service1))"
    and m2: "t2 \<in> set (heap w (tasks service2))"
    and same: "task_id t1 = task_id t2"
    and c1: "\<not> completed t1" and c2: "completed t2"
  shows "fst (sync_tasks service1 service2 w) = Inr ()
     \<and> heap (snd (sync_tasks service1 service2 w)) (tasks service1) = heap w (tasks service1)
     \<and> t1 \<in> set (heap (snd (sync_tasks service1 service2 w)) (tasks service2))
     \<and> (\<forall>t \<in> set (heap (snd (sync_tasks service1 service2 w)) (tasks service2)).
            task_id t = task_id t1 \<longrightarrow> t = t1)
     \<and> filter (\<lambda>c. task_id (call_task c) = task_id t1)
            (new_calls w (snd (sync_tasks service1 service2 w))) = [Update_call service2 t1]
     \<and> filter (\<lambda>c. receiver c = service1)
            (new_calls w (snd (sync_tasks service1 service2 w))) = []"
proof -
  let ?l1 = "heap w (tasks service1)" and ?l2 = "heap w (tasks service2)"
  let ?items = "tasks_by_id ?l1"
  let ?w' = "snd (sync_tasks service1 service2 w)"
  have na: "tasks service1 \<noteq> tasks service2"
  proof
    assume "tasks service1 = tasks service2"
    with m1 m2 d2 same have "t1 = t2" by (auto intro: same_id_unique)
    with c1 c2 show False by simp
  qed
  then have ns: "service1 \<noteq> service2" by auto
  have wk: "well_keyed ?items" by (rule tasks_by_id_well_keyed)
  have item: "(task_id t1, t1) \<in> set ?items" using d1 m1 by (rule tasks_by_id_own)
  have look1: "map_of ?items (task_id t1) = Some t1"
    using d1 m1 by (simp add: tasks_by_id_lookup)
  have look2: "map_of (tasks_by_id ?l2) (task_id t1) = Some t2"
    using d2 m2 same by (simp add: tasks_by_id_lookup)
  have l2': "heap ?w' (tasks service2) = merged ?items ?l2"
    using d2 by (rule sync_tasks_unique)
  have mt: "merge_task ?items t2 = t1"
    using look1 same c1 c2 by (simp add: merge_task_def)
  have A: "fst (sync_tasks service1 service2 w) = Inr ()"
    using sync_tasks_general[of service1 service2 w] by simp
  have B: "heap ?w' (tasks service1) = ?l1"
    using sync_tasks_general[of service1 service2 w] na by simp
  have C: "t1 \<in> set (heap ?w' (tasks service2))"
  proof -
    have "merge_task ?items t2 \<in> set (merged ?items ?l2)"
      using m2 by (simp add: merged_def)
    with mt l2' show ?thesis by simp
  qed
  have D: "\<forall>t \<in> set (heap ?w' (tasks service2)). task_id t = task_id t1 \<longrightarrow> t = t1"
  proof (intro ballI impI)
    fix t assume t: "t \<in> set (heap ?w' (tasks service2))" and tid: "task_id t = task_id t1"
    from t l2' have "t \<in> set (merged ?items ?l2)" by simp
    from merged_mem[OF wk this] show "t = t1"
    proof
      assume "\<exists>u \<in> set ?l2. t = merge_task ?items u"
      then obtain u where u: "u \<in> set ?l2" "t = merge_task ?items u" by blast
      with tid same have "task_id u = task_id t2" by (simp add: merge_task_id[OF wk])
      with d2 u(1) m2 have "u = t2" by (rule same_id_unique)
      with u(2) mt show ?thesis by simp
    next
      assume "(task_id t, t) \<in> set ?items \<and> task_id t \<notin> set (ids ?l2)"
      with tid same m2 show ?thesis by (auto simp: ids_def)
    qed
  qed
  have E: "filter (\<lambda>c. task_id (call_task c) = task_id t1) (new_calls w ?w')
             = [Update_call service2 t1]"
    using planned_for_id[OF wk item, of service2 "tasks_by_id ?l2"] look2 c1 c2
    by (simp add: sync_tasks_new_calls)
  have F: "filter (\<lambda>c. receiver c = service1) (new_calls w ?w') = []"
    using planned_receiver ns by (auto simp: sync_tasks_new_calls filter_empty_conv)
  from A B C D E F show ?thesis by blast
qed

theorem sync_service1_wins_witness:
  "heap (snd (sync_tasks svc_A svc_B (world_of initial_tasks [task_a\<lparr>completed := True\<rparr>]))) 0
     = initial_tasks
   \<and> heap (snd (sync_tasks svc_A svc_B (world_of initial_tasks [task_a\<lparr>completed := True\<rparr>]))) 1
     = [task_a, task_b]
   \<and> \<not> completed task_a"
  using sync_service1_wins[of "world_of initial_tasks [task_a\<lparr>completed := True\<rparr>]" svc_A svc_B
      task_a "task_a\<lparr>completed := True\<rparr>"]
  by (simp add: ex_defs)

text \<open>
  The scenario of C1 on the code: task \<open>1\<close> not completed in service1 and completed in
  service2. After the run both lists hold the task not completed, and the one
  invocation made is an \<open>update_task\<close> on service2.
\<close>

theorem last_writer_wins_counterexample:
  "heap (snd (sync_tasks svc_A svc_B (world_of [task_a] [task_a\<lparr>completed := True\<rparr>]))) 0
     = [task_a]
   \<and> heap (snd (sync_tasks svc_A svc_B (world_of [task_a] [task_a\<lparr>completed := True\<rparr>]))) 1
     = [task_a]
   \<and> completed task_a = False
   \<and> new_calls (world_of [task_a] [task_a\<lparr>completed := True\<rparr>])
        (snd (sync_tasks svc_A svc_B (world_of [task_a] [task_a\<lparr>completed := True\<rparr>])))
     = [Update_call svc_B task_a]
   \<and> receiver (Update_call svc_B task_a) \<noteq> svc_A"
  by (simp add: ex_defs)

section \<open>Convergence\<close>

text \<open>
  C2 (as the code has it). With ids pairwise distinct in each service, the run
  succeeds, every id of service1 is then an id of service2, and two tasks of the same
  id in the two services then have the same \<open>completed\<close> flag; service2's task is either
  service1's task itself (created or updated by the run) or the task that service2
  already had, whose name and due date were not compared.
\<close>

theorem sync_completion_converges:
  assumes d1: "distinct (ids (heap w (tasks service1)))"
    and d2: "distinct (ids (heap w (tasks service2)))"
  shows "fst (sync_tasks service1 service2 w) = Inr ()
     \<and> set (ids (heap (snd (sync_tasks service1 service2 w)) (tasks service1)))
          \<subseteq> set (ids (heap (snd (sync_tasks service1 service2 w)) (tasks service2)))
     \<and> (\<forall>t1 \<in> set (heap (snd (sync_tasks service1 service2 w)) (tasks service1)).
         \<forall>t2 \<in> set (heap (snd (sync_tasks service1 service2 w)) (tasks service2)).
           task_id t1 = task_id t2 \<longrightarrow>
             completed t1 = completed t2 \<and> (t2 = t1 \<or> t2 \<in> set (heap w (tasks service2))))"
proof (cases "tasks service1 = tasks service2")
  case True
  then have "sync_tasks service1 service2 w = (Inr (), w)" by (rule sync_tasks_alias)
  with True d2 show ?thesis by (auto dest: same_id_unique)
next
  case False
  let ?l1 = "heap w (tasks service1)" and ?l2 = "heap w (tasks service2)"
  let ?items = "tasks_by_id ?l1"
  let ?w' = "snd (sync_tasks service1 service2 w)"
  have wk: "well_keyed ?items" by (rule tasks_by_id_well_keyed)
  have A: "fst (sync_tasks service1 service2 w) = Inr ()"
    using sync_tasks_general[of service1 service2 w] by simp
  have l1': "heap ?w' (tasks service1) = ?l1"
    using sync_tasks_general[of service1 service2 w] False by simp
  have l2': "heap ?w' (tasks service2) = merged ?items ?l2"
    using d2 by (rule sync_tasks_unique)
  have dm: "distinct (ids (merged ?items ?l2))"
    using wk d2 by (rule merged_distinct)
  have B: "set (ids (heap ?w' (tasks service1))) \<subseteq> set (ids (heap ?w' (tasks service2)))"
    using sync_tasks_general[of service1 service2 w] l1' by auto
  have C: "completed t1 = completed t2 \<and> (t2 = t1 \<or> t2 \<in> set ?l2)"
    if t1: "t1 \<in> set ?l1" and t2: "t2 \<in> set (merged ?items ?l2)"
      and same: "task_id t1 = task_id t2" for t1 t2
  proof -
    have "(task_id t1, t1) \<in> set ?items" using d1 t1 by (rule tasks_by_id_own)
    from merged_post[OF wk this, of ?l2] obtain t where t: "t \<in> set (merged ?items ?l2)"
      "task_id t = task_id t1" "completed t = completed t1" "t = t1 \<or> t \<in> set ?l2" by blast
    from t(2) same have "task_id t2 = task_id t" by simp
    with dm t2 t(1) have "t2 = t" by (rule same_id_unique)
    with t show ?thesis by simp
  qed
  from A B C show ?thesis unfolding l1' l2' by blast
qed

theorem sync_completion_converges_witness:
  "heap (snd (sync_tasks svc_A svc_B
       (world_of initial_tasks [task_a\<lparr>name := ''Renamed''\<rparr>, task_b\<lparr>completed := False\<rparr>]))) 1
     = [task_a\<lparr>name := ''Renamed''\<rparr>, task_b]"
  using sync_completion_converges[of
      "world_of initial_tasks [task_a\<lparr>name := ''Renamed''\<rparr>, task_b\<lparr>completed := False\<rparr>]"
      svc_A svc_B]
  by (simp add: ex_defs)

text \<open>
  C2 as stated fails: only service1's copy of task \<open>1\<close> was renamed; the run succeeds
  and the two tasks of id \<open>1\<close> still differ in their name.
\<close>

theorem content_convergence_counterexample:
  "fst (sync_tasks svc_A svc_B (world_of [task_a\<lparr>name := ''Renamed''\<rparr>] [task_a])) = Inr ()
   \<and> heap (snd (sync_tasks svc_A svc_B (world_of [task_a\<lparr>name := ''Renamed''\<rparr>] [task_a]))) 0
       = [task_a\<lparr>name := ''Renamed''\<rparr>]
   \<and> heap (snd (sync_tasks svc_A svc_B (world_of [task_a\<lparr>name := ''Renamed''\<rparr>] [task_a]))) 1
       = [task_a]
   \<and> task_id (task_a\<lparr>name := ''Renamed''\<rparr>) = task_id task_a
   \<and> name (task_a\<lparr>name := ''Renamed''\<rparr>) \<noteq> name task_a"
  by (simp add: ex_defs)

section \<open>Idempotence\<close>

text \<open>
  C4 (as the code has it). When the ids of service2 are pairwise distinct, the first
  run succeeds and a second run right after it succeeds, changes nothing and makes no
  \<open>update_task\<close> or \<open>add_task\<close> invocation. The ids of service1 need not be distinct,
  and the two services may share their list.
\<close>

theorem sync_twice_no_operations:
  assumes d2: "distinct (ids (heap w (tasks service2)))"
  shows "fst (sync_tasks service1 service2 w) = Inr ()
     \<and> sync_tasks service1 service2 (snd (sync_tasks service1 service2 w))
         = (Inr (), snd (sync_tasks service1 service2 w))
     \<and> new_calls (snd (sync_tasks service1 service2 w))
          (snd (sync_tasks service1 service2 (snd (sync_tasks service1 service2 w)))) = []"
proof (cases "tasks service1 = tasks service2")
  case True
  then show ?thesis by (simp add: sync_tasks_alias new_calls_def)
next
  case False
  let ?l1 = "heap w (tasks service1)" and ?l2 = "heap w (tasks service2)"
  let ?items = "tasks_by_id ?l1"
  let ?w' = "snd (sync_tasks service1 service2 w)"
  have wk: "well_keyed ?items" by (rule tasks_by_id_well_keyed)
  have A: "fst (sync_tasks service1 service2 w) = Inr ()"
    using sync_tasks_general[of service1 service2 w] by simp
  have l1': "heap ?w' (tasks service1) = ?l1"
    using sync_tasks_general[of service1 service2 w] False by simp
  have l2': "heap ?w' (tasks service2) = merged ?items ?l2"
    using d2 by (rule sync_tasks_unique)
  have dm: "distinct (ids (merged ?items ?l2))"
    using wk d2 by (rule merged_distinct)
  have "\<forall>(k, v) \<in> set ?items.
          \<exists>t2. map_of (tasks_by_id (merged ?items ?l2)) k = Some t2 \<and> completed t2 = completed v"
  proof (clarify)
    fix k v assume "(k, v) \<in> set ?items"
    from merged_post[OF wk this, of ?l2] obtain t where "t \<in> set (merged ?items ?l2)"
      "task_id t = k" "completed t = completed v" by blast
    then show "\<exists>t2. map_of (tasks_by_id (merged ?items ?l2)) k = Some t2
                 \<and> completed t2 = completed v"
      using tasks_by_id_lookup[OF dm, of k t] by blast
  qed
  then have n: "sync_items service2 (tasks_by_id (merged ?items ?l2)) ?items ?w' = (Inr (), ?w')"
    by (rule sync_items_noop)
  have e: "sync_tasks service1 service2 ?w'
        = sync_items service2 (tasks_by_id (merged ?items ?l2)) ?items ?w'"
    using sync_tasks_eq[of service1 service2 ?w'] unfolding l1' l2' .
  from e n have B: "sync_tasks service1 service2 ?w' = (Inr (), ?w')"
    by (rule trans)
  then have "new_calls ?w' (snd (sync_tasks service1 service2 ?w')) = []"
    by (simp add: new_calls_def)
  with A B show ?thesis by simp
qed

theorem sync_twice_no_operations_witness:
  "new_calls (snd (sync_tasks svc_A svc_B (world_of initial_tasks [task_a\<lparr>completed := True\<rparr>])))
      (snd (sync_tasks svc_A svc_B
         (snd (sync_tasks svc_A svc_B (world_of initial_tasks [task_a\<lparr>completed := True\<rparr>])))))
     = []
   \<and> new_calls (world_of initial_tasks [task_a\<lparr>completed := True\<rparr>])
        (snd (sync_tasks svc_A svc_B (world_of initial_tasks [task_a\<lparr>completed := True\<rparr>])))
     = [Update_call svc_B task_a, Add_call svc_B task_b]"
  using sync_twice_no_operations[of "world_of initial_tasks [task_a\<lparr>completed := True\<rparr>]"
      svc_A svc_B]
  by (simp add: ex_defs)

text \<open>
  C4 as stated fails where service2 holds an id twice: \<open>tasks2\<close> keeps the last task of
  the id, \<open>update_task\<close> replaces the first, and the second run repeats the update.
\<close>

theorem idempotence_counterexample:
  "fst (sync_tasks svc_A svc_B
      (world_of [task_a\<lparr>completed := True\<rparr>] [task_a\<lparr>completed := True\<rparr>, task_a])) = Inr ()
   \<and> new_calls
        (snd (sync_tasks svc_A svc_B
           (world_of [task_a\<lparr>completed := True\<rparr>] [task_a\<lparr>completed := True\<rparr>, task_a])))
        (snd (sync_tasks svc_A svc_B
           (snd (sync_tasks svc_A svc_B
              (world_of [task_a\<lparr>completed := True\<rparr>] [task_a\<lparr>completed := True\<rparr>, task_a])))))
     = [Update_call svc_B (task_a\<lparr>completed := True\<rparr>)]"
  by (simp add: ex_defs)

section \<open>Change detection\<close>

text \<open>
  C5 (as the code has it). For an id present in both services, \<open>sync_tasks\<close> compares
  the entries of its dictionaries \<open>tasks1\<close> and \<open>tasks2\<close> under that id (in each list the
  last task of that id, the only one when ids are unique): the invocations for that id
  are one \<open>update_task\<close> on service2 with service1's entry when the two \<open>completed\<close>
  flags differ, and none when they are equal. Name and due date are not compared.
\<close>

theorem update_iff_completed_differs:
  assumes k1: "k \<in> set (ids (heap w (tasks service1)))"
    and k2: "k \<in> set (ids (heap w (tasks service2)))"
  shows "filter (\<lambda>c. task_id (call_task c) = k) (new_calls w (snd (sync_tasks service1 service2 w)))
       = (if completed (entry k (heap w (tasks service1)))
               \<noteq> completed (entry k (heap w (tasks service2)))
          then [Update_call service2 (entry k (heap w (tasks service1)))] else [])"
proof -
  let ?l1 = "heap w (tasks service1)" and ?l2 = "heap w (tasks service2)"
  have wk: "well_keyed (tasks_by_id ?l1)" by (rule tasks_by_id_well_keyed)
  have item: "(k, entry k ?l1) \<in> set (tasks_by_id ?l1)" using k1 by (rule tasks_by_id_entry_mem)
  have look2: "map_of (tasks_by_id ?l2) k = Some (entry k ?l2)" using k2 by (rule tasks_by_id_entry)
  from planned_for_id[OF wk item, of service2 "tasks_by_id ?l2"] look2 show ?thesis
    by (simp add: sync_tasks_new_calls)
qed

theorem update_iff_completed_differs_witness:
  "new_calls (world_of initial_tasks [task_b\<lparr>name := ''Renamed''\<rparr>, task_a\<lparr>completed := True\<rparr>])
      (snd (sync_tasks svc_A svc_B
         (world_of initial_tasks [task_b\<lparr>name := ''Renamed''\<rparr>, task_a\<lparr>completed := True\<rparr>])))
     = [Update_call svc_B task_a]
   \<and> entry ''1'' initial_tasks = task_a
   \<and> entry ''2'' initial_tasks = task_b"
  using update_iff_completed_differs[of "''1''"
      "world_of initial_tasks [task_b\<lparr>name := ''Renamed''\<rparr>, task_a\<lparr>completed := True\<rparr>]"
      svc_A svc_B]
    update_iff_completed_differs[of "''2''"
      "world_of initial_tasks [task_b\<lparr>name := ''Renamed''\<rparr>, task_a\<lparr>completed := True\<rparr>]"
      svc_A svc_B]
  by (simp add: ex_defs entry_def)

text \<open>
  C5 as stated fails: the two tasks of id \<open>1\<close> differ in their due date, and the run
  makes no invocation.
\<close>

theorem content_change_detection_counterexample:
  "new_calls (world_of [task_a\<lparr>due_date := Some (mk_datetime 2024 1 1)\<rparr>] [task_a])
      (snd (sync_tasks svc_A svc_B
         (world_of [task_a\<lparr>due_date := Some (mk_datetime 2024 1 1)\<rparr>] [task_a])))
     = []
   \<and> task_id (task_a\<lparr>due_date := Some (mk_datetime 2024 1 1)\<rparr>) = task_id task_a
   \<and> due_date (task_a\<lparr>due_date := Some (mk_datetime 2024 1 1)\<rparr>) \<noteq> due_date task_a"
  by (simp add: ex_defs)

section \<open>Creation of missing tasks\<close>

text \<open>
  C6 (as the code has it). For a task of service1 whose id is absent from service2, the
  invocations for that id are exactly one \<open>add_task\<close> on service2, whose argument is the
  entry of \<open>tasks1\<close> under that id: the last task of that id in service1's list, which
  is the task itself when service1's ids are pairwise distinct. Afterwards service2's
  list has a task of that id.
\<close>

theorem sync_creates_missing:
  assumes m1: "t \<in> set (heap w (tasks service1))"
    and n2: "task_id t \<notin> set (ids (heap w (tasks service2)))"
  shows "filter (\<lambda>c. task_id (call_task c) = task_id t)
            (new_calls w (snd (sync_tasks service1 service2 w)))
          = [Add_call service2 (entry (task_id t) (heap w (tasks service1)))]
     \<and> task_id (entry (task_id t) (heap w (tasks service1))) = task_id t
     \<and> (distinct (ids (heap w (tasks service1)))
           \<longrightarrow> entry (task_id t) (heap w (tasks service1)) = t)
     \<and> task_id t \<in> set (ids (heap (snd (sync_tasks service1 service2 w)) (tasks service2)))"
proof -
  let ?l1 = "heap w (tasks service1)" and ?l2 = "heap w (tasks service2)"
  let ?k = "task_id t"
  have k1: "?k \<in> set (ids ?l1)" using m1 by (simp add: ids_def)
  have wk: "well_keyed (tasks_by_id ?l1)" by (rule tasks_by_id_well_keyed)
  have item: "(?k, entry ?k ?l1) \<in> set (tasks_by_id ?l1)" using k1 by (rule tasks_by_id_entry_mem)
  have look2: "map_of (tasks_by_id ?l2) ?k = None"
    using n2 tasks_by_id_keys[of ?l2] by (simp add: map_of_eq_None_iff)
  have A: "filter (\<lambda>c. task_id (call_task c) = ?k) (new_calls w (snd (sync_tasks service1 service2 w)))
          = [Add_call service2 (entry ?k ?l1)]"
    using planned_for_id[OF wk item, of service2 "tasks_by_id ?l2"] look2
    by (simp add: sync_tasks_new_calls)
  have B: "task_id (entry ?k ?l1) = ?k"
    using tasks_by_id_mem[OF item] by simp
  have C: "distinct (ids ?l1) \<longrightarrow> entry ?k ?l1 = t"
    using m1 by (simp add: entry_unique)
  have D: "?k \<in> set (ids (heap (snd (sync_tasks service1 service2 w)) (tasks service2)))"
    using sync_tasks_general[of service1 service2 w] k1 by simp
  from A B C D show ?thesis by blast
qed

theorem sync_creates_missing_witness:
  "new_calls (world_of initial_tasks [task_a]) (snd (sync_tasks svc_A svc_B (world_of initial_tasks [task_a])))
     = [Add_call svc_B task_b]
   \<and> entry ''2'' initial_tasks = task_b
   \<and> heap (snd (sync_tasks svc_A svc_B (world_of initial_tasks [task_a]))) 1 = [task_a, task_b]"
  using sync_creates_missing[of task_b "world_of initial_tasks [task_a]" svc_A svc_B]
  by (simp add: ex_defs entry_def)

text \<open>
  C6 as stated fails where service1 holds an id twice: the first of the two tasks is
  never passed to \<open>add_task\<close>; the one invocation carries the second.
\<close>

theorem create_with_that_task_counterexample:
  "new_calls (world_of [task_a, task_a\<lparr>name := ''Task 1 again''\<rparr>] [])
      (snd (sync_tasks svc_A svc_B (world_of [task_a, task_a\<lparr>name := ''Task 1 again''\<rparr>] [])))
     = [Add_call svc_B (task_a\<lparr>name := ''Task 1 again''\<rparr>)]
   \<and> task_a\<lparr>name := ''Task 1 again''\<rparr> \<noteq> task_a
   \<and> heap (snd (sync_tasks svc_A svc_B (world_of [task_a, task_a\<lparr>name := ''Task 1 again''\<rparr>] []))) 1
     = [task_a\<lparr>name := ''Task 1 again''\<rparr>]"
  by (simp add: ex_defs)

section \<open>Uniqueness of ids\<close>

text \<open>
  C10 (as the code has it). From a state where the ids of a service's list are pairwise
  distinct: \<open>update_task\<close> on that service keeps them distinct; \<open>add_task\<close> keeps them
  distinct exactly when the id of the added task is not yet in the list (it does not
  check); a run of \<open>sync_tasks\<close>, with any two services, keeps them distinct.
\<close>

theorem uniqueness_preserved:
  assumes d: "distinct (ids (heap w (tasks s)))"
  shows "distinct (ids (heap (snd (update_task s task w)) (tasks s)))
     \<and> (distinct (ids (heap (snd (add_task s task w)) (tasks s)))
          \<longleftrightarrow> task_id task \<notin> set (ids (heap w (tasks s))))
     \<and> distinct (ids (heap (snd (sync_tasks service1 service2 w)) (tasks s)))"
proof -
  have A: "distinct (ids (heap (snd (update_task s task w)) (tasks s)))"
  proof (cases "update_loop (heap w (tasks s)) task")
    case None
    with d show ?thesis by (simp add: update_task_def)
  next
    case (Some ts')
    with d update_loop_ids[OF Some] show ?thesis by (simp add: update_task_def)
  qed
  have B: "distinct (ids (heap (snd (add_task s task w)) (tasks s)))
          \<longleftrightarrow> task_id task \<notin> set (ids (heap w (tasks s)))"
    using d by (simp add: add_task_eq ids_def)
  have C: "distinct (ids (heap (snd (sync_tasks service1 service2 w)) (tasks s)))"
  proof (cases "tasks s = tasks service2")
    case True
    with d have d2: "distinct (ids (heap w (tasks service2)))" by simp
    from sync_tasks_unique[OF d2, of service1] merged_distinct[OF tasks_by_id_well_keyed d2]
    show ?thesis using True by simp
  next
    case False
    with d sync_tasks_general[of service1 service2 w] show ?thesis by simp
  qed
  from A B C show ?thesis by blast
qed

theorem uniqueness_preserved_witness:
  "ids (heap (snd (update_task svc_A (task_a\<lparr>completed := True\<rparr>) (world_of initial_tasks []))) 0)
     = [''1'', ''2'']
   \<and> ids (heap (snd (add_task svc_A (task_a\<lparr>task_id := ''3''\<rparr>) (world_of initial_tasks []))) 0)
     = [''1'', ''2'', ''3'']
   \<and> ids (heap (snd (sync_tasks svc_B svc_A (world_of initial_tasks [task_a\<lparr>task_id := ''3''\<rparr>]))) 0)
     = [''1'', ''2'', ''3'']
   \<and> distinct [''1'', ''2'', ''3'']"
  using uniqueness_preserved[of "world_of initial_tasks []" svc_A "task_a\<lparr>completed := True\<rparr>"]
    uniqueness_preserved[of "world_of initial_tasks [task_a\<lparr>task_id := ''3''\<rparr>]" svc_A
      "task_a\<lparr>task_id := ''3''\<rparr>" svc_B svc_A]
  by (simp add: ex_defs)

text \<open>
  C10 as stated fails for \<open>add_task\<close>: adding a task whose id is already in the list
  gives a list with that id twice.
\<close>

theorem add_task_duplicate_counterexample:
  "distinct (ids (heap (world_of [task_a] []) (tasks svc_A)))
   \<and> ids (heap (snd (add_task svc_A task_a (world_of [task_a] []))) (tasks svc_A)) = [''1'', ''1'']
   \<and> \<not> distinct (ids (heap (snd (add_task svc_A task_a (world_of [task_a] []))) (tasks svc_A)))"
  by (simp add: ex_defs)

section \<open>Serialization of a Task\<close>

lemma digits_small: "n < 10 \<Longrightarrow> digits n = [digit_char n]"
  by (subst digits.simps) simp

lemma digits_large: "\<not> n < 10 \<Longrightarrow> digits n = digits (n div 10) @ [digit_char (n mod 10)]"
  by (subst digits.simps) simp

lemma digit_char_is_digit: "n < 10 \<Longrightarrow> is_digit (digit_char n)"
  by (simp add: is_digit_def digit_char_def)

lemma digit_char_val: "n < 10 \<Longrightarrow> digit_val (digit_char n) = n"
  by (simp add: digit_val_def digit_char_def)

lemma digit_char_0: "digit_char 0 = CHR ''0''"
  unfolding digit_char_def by code_simp

lemma zero_pad_one: "n < 10 \<Longrightarrow> zero_pad (Suc 0) n = [digit_char n]"
  by (simp add: zero_pad_def digits_small)

lemma replicate_snoc: "replicate n x @ [x] = replicate (Suc n) x"
  by (induction n) auto

lemma zero_pad_Suc:
  assumes "0 < w"
  shows "zero_pad (Suc w) n = zero_pad w (n div 10) @ [digit_char (n mod 10)]"
proof (cases "n < 10")
  case True
  from assms obtain v where w: "w = Suc v" by (cases w) auto
  have l: "zero_pad (Suc w) n = replicate w (CHR ''0'') @ [digit_char n]"
    using True by (simp add: zero_pad_def digits_small)
  have "zero_pad w 0 = replicate v (CHR ''0'') @ [CHR ''0'']"
    using w by (simp add: zero_pad_def digit_char_0 digits_small)
  then have "zero_pad w 0 = replicate w (CHR ''0'')"
    using w by (simp only: replicate_snoc)
  with l True show ?thesis by simp
next
  case False
  then have "digits n = digits (n div 10) @ [digit_char (n mod 10)]"
    by (rule digits_large)
  then show ?thesis by (simp add: zero_pad_def)
qed

lemma read_num_snoc:
  "read_num w acc s = Some (a, c # r) \<Longrightarrow> is_digit c \<Longrightarrow>
     read_num (Suc w) acc s = Some (10 * a + digit_val c, r)"
proof (induction w acc s rule: read_num.induct)
  case (1 acc s)
  then show ?case by simp
next
  case (2 w acc)
  then show ?case by simp
next
  case (3 w acc c' s)
  then show ?case by (auto split: if_splits)
qed

lemma read_num_zero_pad:
  "n < 10 ^ Suc w \<Longrightarrow>
     read_num (Suc w) acc (zero_pad (Suc w) n @ rest) = Some (acc * 10 ^ Suc w + n, rest)"
proof (induction w arbitrary: n rest)
  case 0
  then show ?case
    by (simp add: zero_pad_one digit_char_is_digit digit_char_val)
next
  case (Suc w)
  have d: "n div 10 < 10 ^ Suc w" using Suc.prems by (simp add: less_mult_imp_div_less)
  have m: "n mod 10 < 10" by simp
  have "read_num (Suc w) acc (zero_pad (Suc w) (n div 10) @ (digit_char (n mod 10) # rest))
          = Some (acc * 10 ^ Suc w + n div 10, digit_char (n mod 10) # rest)"
    by (rule Suc.IH[OF d])
  from read_num_snoc[OF this digit_char_is_digit[OF m]]
  have "read_num (Suc (Suc w)) acc (zero_pad (Suc w) (n div 10) @ (digit_char (n mod 10) # rest))
          = Some (10 * (acc * 10 ^ Suc w + n div 10) + n mod 10, rest)"
    by (simp add: digit_char_val[OF m])
  moreover have "zero_pad (Suc (Suc w)) n @ rest
          = zero_pad (Suc w) (n div 10) @ (digit_char (n mod 10) # rest)"
    by (simp add: zero_pad_Suc)
  moreover have "10 * (acc * 10 ^ Suc w + n div 10) + n mod 10 = acc * 10 ^ Suc (Suc w) + n"
    by (simp add: algebra_simps)
  ultimately show ?case by simp
qed

lemma read2: "n < 100 \<Longrightarrow> read_num 2 0 (zero_pad 2 n @ rest) = Some (n, rest)"
  using read_num_zero_pad[of n 1 0 rest] by (simp add: numeral_2_eq_2)

lemma read4: "n < 10000 \<Longrightarrow> read_num 4 0 (zero_pad 4 n @ rest) = Some (n, rest)"
  using read_num_zero_pad[of n 3 0 rest] by simp

lemma read6: "n < 1000000 \<Longrightarrow> read_num 6 0 (zero_pad 6 n @ rest) = Some (n, rest)"
  using read_num_zero_pad[of n 5 0 rest] by simp

lemma read2_end: "n < 100 \<Longrightarrow> read_num 2 0 (zero_pad 2 n) = Some (n, [])"
  using read2[of n "[]"] by simp

lemma read6_end: "n < 1000000 \<Longrightarrow> read_num 6 0 (zero_pad 6 n) = Some (n, [])"
  using read6[of n "[]"] by simp

lemma days_in_month_le: "days_in_month y m \<le> 31"
  by (simp add: days_in_month_def)

lemma expect_same: "expect c (c # s) = Some s"
  by simp

lemma read_opt_fraction_offset:
  "read_opt_fraction (format_offset off) = Some (0, format_offset off)"
  by (simp add: format_offset_def Let_def)

lemma offset_parts:
  fixes a :: nat
  shows "a div 3600000000 * 3600000000 + (a mod 3600000000) div 60000000 * 60000000
           + (a mod 3600000000) mod 60000000 = a"
proof -
  have "(a mod 3600000000) div 60000000 * 60000000 + (a mod 3600000000) mod 60000000
          = a mod 3600000000"
    by (rule div_mult_mod_eq)
  moreover have "a div 3600000000 * 3600000000 + a mod 3600000000 = a"
    by (rule div_mult_mod_eq)
  ultimately show ?thesis by linarith
qed

lemma read_offset_seconds_format:
  assumes "ss < 60000000"
  shows "read_offset_seconds
           (if ss \<noteq> 0 then
              '':'' @ zero_pad 2 (ss div 1000000)
              @ (if ss mod 1000000 \<noteq> 0 then ''.'' @ zero_pad 6 (ss mod 1000000) else [])
            else []) = Some ss"
proof (cases "ss = 0")
  case True
  then show ?thesis by simp
next
  case False
  from assms have s2: "ss div 1000000 < 100" by simp
  have s6: "ss mod 1000000 < 1000000" by simp
  have whole: "ss div 1000000 * 1000000 + ss mod 1000000 = ss" by (rule div_mult_mod_eq)
  show ?thesis
  proof (cases "ss mod 1000000 = 0")
    case True
    with whole have "ss div 1000000 * 1000000 = ss" by simp
    with False True s2 show ?thesis by (simp add: read2_end)
  next
    case nz: False
    with False s2 s6 whole show ?thesis by (simp add: read2 read6_end)
  qed
qed

lemma read_offset_format:
  assumes "- 86400000000 < off" "off < 86400000000"
  shows "read_offset (format_offset off) = Some (Some off)"
proof -
  let ?a = "nat \<bar>off\<bar>"
  let ?hh = "?a div 3600000000" and ?mm = "(?a mod 3600000000) div 60000000"
    and ?ss = "(?a mod 3600000000) mod 60000000"
  let ?tail = "if ?ss \<noteq> 0 then
              '':'' @ zero_pad 2 (?ss div 1000000)
              @ (if ?ss mod 1000000 \<noteq> 0 then ''.'' @ zero_pad 6 (?ss mod 1000000) else [])
            else []"
  from assms have a: "?a < 86400000000" by linarith
  then have hh: "?hh < 100" by simp
  have mm: "?mm < 100"
  proof -
    have "?a mod 3600000000 < 3600000000" by simp
    then show ?thesis by simp
  qed
  have ss: "?ss < 60000000" by simp
  have tail: "read_offset_seconds ?tail = Some ?ss"
    using ss by (rule read_offset_seconds_format)
  have fmt: "format_offset off
      = (if off < 0 then CHR ''-'' else CHR ''+'') # (zero_pad 2 ?hh @ CHR '':'' # zero_pad 2 ?mm @ ?tail)"
    by (simp add: format_offset_def Let_def)
  have val: "int (?hh * 3600000000 + ?mm * 60000000 + ?ss) = int ?a"
    using offset_parts[of ?a] by simp
  have "read_offset (format_offset off)
      = Some (Some (if off < 0 then - int ?a else int ?a))"
    unfolding fmt using hh mm tail val by (simp add: read2 del: of_nat_add of_nat_mult)
  moreover have "(if off < 0 then - int ?a else int ?a) = off" by simp
  ultimately show ?thesis by simp
qed

lemma fromisoformat_isoformat:
  assumes ok: "datetime_ok d"
  shows "fromisoformat (isoformat d) = Some d"
proof -
  from ok have b: "year d < 10000" "month d < 100" "day d < 100" "hour d < 100"
    "minute d < 100" "second d < 100" "microsecond d < 1000000"
    using days_in_month_le[of "year d" "month d"] by (auto simp: datetime_ok_def)
  let ?d = "\<lparr>year = year d, month = month d, day = day d, hour = hour d,
      minute = minute d, second = second d, microsecond = microsecond d,
      utcoffset = utcoffset d\<rparr>"
  let ?frac = "if microsecond d \<noteq> 0 then ''.'' @ zero_pad 6 (microsecond d) else []"
  let ?offs = "case utcoffset d of None \<Rightarrow> [] | Some off \<Rightarrow> format_offset off"
  have eq: "?d = d"
    by (cases d) simp
  have frac: "read_opt_fraction (?frac @ ?offs) = Some (microsecond d, ?offs)"
  proof (cases "microsecond d = 0")
    case True
    then show ?thesis
      by (cases "utcoffset d") (simp_all add: read_opt_fraction_offset)
  next
    case False
    then show ?thesis using b(7) by (simp add: read6)
  qed
  have offs: "read_offset ?offs = Some (utcoffset d)"
  proof (cases "utcoffset d")
    case None
    then show ?thesis by simp
  next
    case (Some off)
    with ok have "- 86400000000 < off" "off < 86400000000" by (simp_all add: datetime_ok_def)
    then have "read_offset (format_offset off) = Some (Some off)" by (rule read_offset_format)
    with Some show ?thesis by simp
  qed
  have "isoformat d
      = zero_pad 4 (year d) @ CHR ''-'' # zero_pad 2 (month d) @ CHR ''-'' # zero_pad 2 (day d)
        @ CHR ''T'' # zero_pad 2 (hour d) @ CHR '':'' # zero_pad 2 (minute d)
        @ CHR '':'' # zero_pad 2 (second d) @ (?frac @ ?offs)"
    by (simp add: isoformat_def)
  then have parts: "fromisoformat (isoformat d) = (if datetime_ok ?d then Some ?d else None)"
    using b frac offs by (simp add: fromisoformat_def read2 read4)
  show ?thesis
    unfolding parts eq using ok by simp
qed

text \<open>
  C9 (as the code has it). For a Task whose \<open>due_date\<close> is \<open>None\<close>, \<open>to_dict\<close> raises
  \<open>AttributeError\<close> (\<open>None\<close> has no \<open>isoformat\<close>). For every Task whose due date is a
  datetime, as the annotation of the constructor says, it returns a dictionary: the four
  keys \<open>task_id\<close>, \<open>name\<close>, \<open>completed\<close>, \<open>due_date\<close> in this order, with the task's id, name
  and flag and the ISO text of its due date.
\<close>

theorem to_dict_raises_iff_no_date:
  "(isl (to_dict t) \<longleftrightarrow> due_date t = None)
   \<and> (due_date t = None \<longrightarrow> to_dict t = Inl (AttributeError no_isoformat_msg))
   \<and> (\<forall>d. due_date t = Some d \<longrightarrow>
         (\<exists>dict. to_dict t = Inr dict
            \<and> map fst dict = [''task_id'', ''name'', ''completed'', ''due_date'']
            \<and> map_of dict ''task_id'' = Some (PyStr (task_id t))
            \<and> map_of dict ''name'' = Some (PyStr (name t))
            \<and> map_of dict ''completed'' = Some (PyBool (completed t))
            \<and> map_of dict ''due_date'' = Some (PyStr (isoformat d))))"
  by (cases "due_date t") (simp_all add: to_dict_def)

theorem to_dict_raises_iff_no_date_witness:
  "\<not> isl (to_dict task_a) \<and> due_date task_a \<noteq> None
   \<and> isl (to_dict (task_b\<lparr>due_date := None\<rparr>))
   \<and> to_dict (task_b\<lparr>due_date := None\<rparr>) = Inl (AttributeError no_isoformat_msg)"
  using to_dict_raises_iff_no_date[of task_a]
    to_dict_raises_iff_no_date[of "task_b\<lparr>due_date := None\<rparr>"]
  by (simp add: task_a_def)

text \<open>
  C9 as stated fails: for the first mock task with its due date set to \<open>None\<close>,
  \<open>to_dict\<close> raises \<open>AttributeError\<close>.
\<close>

theorem to_dict_none_counterexample:
  "to_dict (task_a\<lparr>due_date := None\<rparr>) = Inl (AttributeError no_isoformat_msg)"
  by (simp add: to_dict_def)



text \<open>
  What \<open>isoformat\<close> writes: for the due date of the first mock task; for a UTC datetime
  with microseconds; for an offset of minus five and a half hours. The reader takes the
  second text back to the datetime.
\<close>

lemma digit_chars:
  "digit_char 0 = CHR ''0''" "digit_char 1 = CHR ''1''" "digit_char 2 = CHR ''2''"
  "digit_char 3 = CHR ''3''" "digit_char 4 = CHR ''4''" "digit_char 5 = CHR ''5''"
  "digit_char 6 = CHR ''6''" "digit_char 7 = CHR ''7''" "digit_char 8 = CHR ''8''"
  "digit_char 9 = CHR ''9''"
  unfolding digit_char_def by code_simp+

lemma digit_char_Suc_0: "digit_char (Suc 0) = CHR ''1''"
  using digit_chars(2) by simp

lemma replicate_2: "replicate 2 x = [x, x]"
  by (simp add: numeral_2_eq_2)

lemma isoformat_examples:
  "isoformat (mk_datetime 2023 10 1) = ''2023-10-01T00:00:00''"
  "isoformat ((mk_datetime 2023 10 5)\<lparr>microsecond := 1500, utcoffset := Some 0\<rparr>)
     = ''2023-10-05T00:00:00.001500+00:00''"
  "isoformat ((mk_datetime 2023 10 5)\<lparr>utcoffset := Some (- 19800000000)\<rparr>)
     = ''2023-10-05T00:00:00-05:30''"
  by (simp_all add: isoformat_def format_offset_def mk_datetime_def zero_pad_def digits.simps
      digit_chars digit_char_Suc_0 replicate_2)

lemma fromisoformat_example:
  "fromisoformat ''2023-10-05T00:00:00.001500+00:00''
     = Some ((mk_datetime 2023 10 5)\<lparr>microsecond := 1500, utcoffset := Some 0\<rparr>)"
  using fromisoformat_isoformat[of "(mk_datetime 2023 10 5)\<lparr>microsecond := 1500, utcoffset := Some 0\<rparr>"]
    isoformat_examples(2)
  by (simp add: datetime_ok_def mk_datetime_def days_in_month_def is_leap_def)


end
